theory Spec2Isabelle
  imports Complex_Main
begin

section \<open>The pricing function of src/app.py\<close>

text \<open>
  The program computes with IEEE doubles. The embedding replaces them by the real
  numbers: every arithmetic operation of the source is the exact operation on
  \<^typ>\<open>real\<close>, so rounding, overflow and NaN are outside the model. Comparisons
  (\<open>T <= 0\<close>, \<open>sigma <= 0\<close>) and string equality are as in the source.

  \<open>scipy.stats.norm.cdf\<close> is library code; \<open>black_scholes\<close> takes it
  as the parameter \<open>cdf\<close>. Python's float division \<open>S / K\<close> raises
  \<open>ZeroDivisionError\<close> when \<open>K\<close> is zero (with a numpy scalar for
  \<open>S\<close>, as in the grid loops, it would give infinity or NaN instead; \<open>main\<close>
  never passes a zero strike). \<open>np.log\<close>, \<open>np.sqrt\<close> and \<open>np.exp\<close>
  never raise. \<open>np.log\<close> of a non-positive number is NaN or minus infinity in
  the source and an unspecified real here, so statements about the value of a price
  carry \<open>0 < S\<close> and \<open>0 < K\<close>.
\<close>

datatype py_error = ValueError string | ZeroDivisionError

definition option_type_message :: string where
  "option_type_message =
     ''option_type must be '' @ [CHR 0x27] @ ''call'' @ [CHR 0x27] @ '' or '' @
     [CHR 0x27] @ ''put'' @ [CHR 0x27]"

definition black_scholes ::
  "(real \<Rightarrow> real) \<Rightarrow> real \<Rightarrow> real \<Rightarrow> real \<Rightarrow> real \<Rightarrow> real \<Rightarrow> string \<Rightarrow> py_error + real" where
  "black_scholes cdf S K T r sigma option_type =
     (if T \<le> 0 \<or> sigma \<le> 0 then Inr 0
      else if K = 0 then Inl ZeroDivisionError
      else
        let d1 = (ln (S / K) + (r + 0.5 * sigma ^ 2) * T) / (sigma * sqrt T);
            d2 = d1 - sigma * sqrt T
        in if option_type = ''call'' then
             Inr (S * cdf d1 - K * exp (- r * T) * cdf d2)
           else if option_type = ''put'' then
             Inr (K * exp (- r * T) * cdf (- d2) - S * cdf (- d1))
           else Inl (ValueError option_type_message))"

subsection \<open>The formula as the specification writes it\<close>

datatype kind = Call | Put

fun kind_name :: "kind \<Rightarrow> string" where
  "kind_name Call = ''call''"
| "kind_name Put = ''put''"

definition spec_d1 :: "real \<Rightarrow> real \<Rightarrow> real \<Rightarrow> real \<Rightarrow> real \<Rightarrow> real" where
  "spec_d1 S K T r sigma =
     (ln (S / K) + (r + sigma\<^sup>2 / 2) * T) / (sigma * sqrt T)"

definition spec_d2 :: "real \<Rightarrow> real \<Rightarrow> real \<Rightarrow> real \<Rightarrow> real \<Rightarrow> real" where
  "spec_d2 S K T r sigma = spec_d1 S K T r sigma - sigma * sqrt T"

fun spec_price ::
  "(real \<Rightarrow> real) \<Rightarrow> real \<Rightarrow> real \<Rightarrow> real \<Rightarrow> real \<Rightarrow> real \<Rightarrow> kind \<Rightarrow> real" where
  "spec_price cdf S K T r sigma Call =
     S * cdf (spec_d1 S K T r sigma) - K * exp (- (r * T)) * cdf (spec_d2 S K T r sigma)"
| "spec_price cdf S K T r sigma Put =
     K * exp (- (r * T)) * cdf (- spec_d2 S K T r sigma) - S * cdf (- spec_d1 S K T r sigma)"

section \<open>The page of src/app.py\<close>

subsection \<open>The numpy functions the page calls\<close>

text \<open>
  Modelled from the spec: \<open>np.linspace\<close>, \<open>np.meshgrid\<close> and
  \<open>np.zeros_like\<close> are numpy's, not the repository's. The specification asks for
  evenly spaced values between the two ends, both included, and for grids indexed by
  row = volatility and column = spot. \<open>linspace\<close> follows numpy's computation:
  the step is \<open>(stop - start) / (num - 1)\<close>, entry \<open>i\<close> is
  \<open>i * step + start\<close>, and the last entry is overwritten by \<open>stop\<close>.
  \<open>meshgrid\<close> is numpy's default \<open>xy\<close> indexing: both results have one row
  for each entry of the second argument and one column for each entry of the first.
  A two-dimensional array is a list of rows.
\<close>

definition linspace :: "real \<Rightarrow> real \<Rightarrow> nat \<Rightarrow> real list" where
  "linspace start stop num =
     (let step = (stop - start) / real (num - 1);
          y = map (\<lambda>i. real i * step + start) [0..<num]
      in if 1 < num then y[num - 1 := stop] else y)"

definition meshgrid :: "real list \<Rightarrow> real list \<Rightarrow> real list list \<times> real list list" where
  "meshgrid xs ys = (map (\<lambda>y. xs) ys, map (\<lambda>y. map (\<lambda>x. y) xs) ys)"

definition zeros_like :: "real list list \<Rightarrow> real list list" where
  "zeros_like g = map (map (\<lambda>x. 0)) g"

definition shape0 :: "real list list \<Rightarrow> nat" where
  "shape0 g = length g"

definition shape1 :: "real list list \<Rightarrow> nat" where
  "shape1 g = (case g of [] \<Rightarrow> 0 | row # rest \<Rightarrow> length row)"

definition set_cell :: "real list list \<Rightarrow> nat \<Rightarrow> nat \<Rightarrow> real \<Rightarrow> real list list" where
  "set_cell g i j v = g[i := (g ! i)[j := v]]"

subsection \<open>The grid loops and the page\<close>

text \<open>
  The two nested \<open>for\<close> loops of \<open>main\<close> write one cell of each grid in every
  iteration. An exception raised by \<open>black_scholes\<close> is not caught by
  \<open>main\<close>: it ends the loops and the page. \<open>fill_row\<close> is the inner loop
  over the columns \<open>j\<close> of row \<open>i\<close>, \<open>fill_grid\<close> the outer loop over the
  rows.
\<close>

fun fill_row ::
  "(real \<Rightarrow> real) \<Rightarrow> real list list \<Rightarrow> real list list \<Rightarrow> real \<Rightarrow> real \<Rightarrow> real \<Rightarrow> nat \<Rightarrow>
   nat list \<Rightarrow> real list list \<times> real list list \<Rightarrow> py_error + real list list \<times> real list list" where
  "fill_row cdf S_grid sigma_grid K T r i [] (cp, pp) = Inr (cp, pp)"
| "fill_row cdf S_grid sigma_grid K T r i (j # js) (cp, pp) =
     (case black_scholes cdf (S_grid ! i ! j) K T r (sigma_grid ! i ! j) ''call'' of
        Inl e \<Rightarrow> Inl e
      | Inr c \<Rightarrow>
          (case black_scholes cdf (S_grid ! i ! j) K T r (sigma_grid ! i ! j) ''put'' of
             Inl e \<Rightarrow> Inl e
           | Inr p \<Rightarrow>
               fill_row cdf S_grid sigma_grid K T r i js (set_cell cp i j c, set_cell pp i j p)))"

fun fill_grid ::
  "(real \<Rightarrow> real) \<Rightarrow> real list list \<Rightarrow> real list list \<Rightarrow> real \<Rightarrow> real \<Rightarrow> real \<Rightarrow> nat list \<Rightarrow>
   nat list \<Rightarrow> real list list \<times> real list list \<Rightarrow> py_error + real list list \<times> real list list" where
  "fill_grid cdf S_grid sigma_grid K T r [] js st = Inr st"
| "fill_grid cdf S_grid sigma_grid K T r (i # rows) js st =
     (case fill_row cdf S_grid sigma_grid K T r i js st of
        Inl e \<Rightarrow> Inl e
      | Inr st' \<Rightarrow> fill_grid cdf S_grid sigma_grid K T r rows js st')"

text \<open>
  What the page shows: either the message of \<open>st.error\<close>, or the two prices, the two
  axes of the heatmaps and the two grids. The five arguments of \<open>main\<close> are the
  values of the five \<open>number_input\<close> widgets.
\<close>

record page =
  call_price :: real
  put_price :: real
  S_range :: "real list"
  sigma_range :: "real list"
  call_prices :: "real list list"
  put_prices :: "real list list"

datatype outcome = Rejected string | Rendered page

definition validation_message :: string where
  "validation_message =
     ''Please make sure S, K, and sigma are positive values, and T is non-negative.''"

definition main ::
  "(real \<Rightarrow> real) \<Rightarrow> real \<Rightarrow> real \<Rightarrow> real \<Rightarrow> real \<Rightarrow> real \<Rightarrow> py_error + outcome" where
  "main cdf S K T r sigma =
     (if S \<le> 0 \<or> K \<le> 0 \<or> T < 0 \<or> sigma \<le> 0 then Inr (Rejected validation_message)
      else
        case black_scholes cdf S K T r sigma ''call'' of
          Inl e \<Rightarrow> Inl e
        | Inr cprice \<Rightarrow>
       (case black_scholes cdf S K T r sigma ''put'' of
          Inl e \<Rightarrow> Inl e
        | Inr pprice \<Rightarrow>
            let spot_steps = 10;
                vol_steps = 10;
                S_min = S * 0.8;
                S_max = S * 1.2;
                sigma_min = sigma * 0.5;
                sigma_max = sigma * 1.5;
                S_rng = linspace S_min S_max spot_steps;
                sigma_rng = linspace sigma_min sigma_max vol_steps;
                (S_grid, sigma_grid) = meshgrid S_rng sigma_rng
            in case fill_grid cdf S_grid sigma_grid K T r
                      [0..<shape0 S_grid] [0..<shape1 S_grid]
                      (zeros_like S_grid, zeros_like S_grid) of
                 Inl e \<Rightarrow> Inl e
               | Inr (cp, pp) \<Rightarrow>
                   Inr (Rendered \<lparr>call_price = cprice, put_price = pprice,
                                  S_range = S_rng, sigma_range = sigma_rng,
                                  call_prices = cp, put_prices = pp\<rparr>)))"

section \<open>The standard normal distribution function\<close>

text \<open>
  Modelled from the spec: \<open>norm.cdf\<close> is scipy's, not the repository's; the
  specification calls it the cumulative distribution function of the standard normal
  distribution.

  The density of the standard normal distribution is \<open>exp (- x\<^sup>2 / 2) / sqrt (2 * pi)\<close>.
  A function is its distribution function when it has this density as derivative
  everywhere, tends to 0 at minus infinity and tends to 1 at plus infinity
  (\<open>std_normal_cdf\<close>); this determines the function. The claims that need more
  of \<open>norm.cdf\<close> than its name are stated for every \<open>cdf\<close> with that
  property.

  \<open>Phi\<close> is such a function, built without integrals: the integral of
  \<open>exp (- t\<^sup>2 / 2)\<close> from \<open>0\<close> to \<open>x\<close> is, term by term, the power
  series \<open>gauss_int x = x * (\<Sum>n. (- x\<^sup>2 / 2) ^ n / (n! * (2 * n + 1)))\<close>, and
  \<open>Phi x = 1 / 2 + gauss_int x / sqrt (2 * pi)\<close>. That \<open>Phi\<close> tends to 1 is the
  Gaussian integral, \<open>gauss_int\<close> tends to \<open>sqrt (pi / 2)\<close>; it is proved below by
  comparing \<open>gauss_int\<close> with the integrals \<open>cos_int k\<close> of the powers of the
  cosine, whose values \<open>wallis k\<close> at \<open>pi / 2\<close> obey Wallis' recurrence.
\<close>

definition norm_pdf :: "real \<Rightarrow> real" where
  "norm_pdf x = exp (- x\<^sup>2 / 2) / sqrt (2 * pi)"

definition std_normal_cdf :: "(real \<Rightarrow> real) \<Rightarrow> bool" where
  "std_normal_cdf cdf \<longleftrightarrow>
     (\<forall>x. (cdf has_real_derivative norm_pdf x) (at x)) \<and>
     (cdf \<longlongrightarrow> 0) at_bot \<and> (cdf \<longlongrightarrow> 1) at_top"

definition gauss_coeff :: "nat \<Rightarrow> real" where
  "gauss_coeff n = (- 1 / 2) ^ n / (fact n * (2 * real n + 1))"

definition gauss_series :: "real \<Rightarrow> real" where
  "gauss_series u = (\<Sum>n. (- u / 2) ^ n / (fact n * (2 * real n + 1)))"

definition gauss_int :: "real \<Rightarrow> real" where
  "gauss_int x = x * gauss_series (x\<^sup>2)"

definition Phi :: "real \<Rightarrow> real" where
  "Phi x = 1 / 2 + x * gauss_series (x\<^sup>2) / sqrt (2 * pi)"

fun cos_int :: "nat \<Rightarrow> real \<Rightarrow> real" where
  "cos_int 0 x = x"
| "cos_int (Suc 0) x = sin x"
| "cos_int (Suc (Suc k)) x =
     (real (Suc k) * cos_int k x + cos x ^ Suc k * sin x) / real (Suc (Suc k))"

definition wallis :: "nat \<Rightarrow> real" where
  "wallis k = cos_int k (pi / 2)"

section \<open>Notions used in the statements\<close>

text \<open>
  \<open>price_value\<close> is the number \<open>black_scholes\<close> returns when it raises nothing.
  \<open>evenly_spaced xs a b n\<close> says that \<open>xs\<close> has \<open>n\<close> entries, starts at
  \<open>a\<close>, ends at \<open>b\<close> and has the same distance between any two neighbours.
  \<open>grid_after f W g g'\<close> says that \<open>g'\<close> has the shape of \<open>g\<close>, holds
  \<open>f i j\<close> in the cells \<open>(i, j)\<close> of \<open>W\<close> and the content of \<open>g\<close> in the
  other cells.
\<close>

definition price_value ::
  "(real \<Rightarrow> real) \<Rightarrow> real \<Rightarrow> real \<Rightarrow> real \<Rightarrow> real \<Rightarrow> real \<Rightarrow> kind \<Rightarrow> real" where
  "price_value cdf S K T r sigma k =
     (if T \<le> 0 \<or> sigma \<le> 0 then 0 else spec_price cdf S K T r sigma k)"

definition evenly_spaced :: "real list \<Rightarrow> real \<Rightarrow> real \<Rightarrow> nat \<Rightarrow> bool" where
  "evenly_spaced xs a b n \<longleftrightarrow>
     length xs = n \<and> xs ! 0 = a \<and> xs ! (n - 1) = b \<and>
     (\<forall>i. Suc i < n \<longrightarrow> xs ! Suc i - xs ! i = (b - a) / real (n - 1))"

definition grid_after ::
  "(nat \<Rightarrow> nat \<Rightarrow> real) \<Rightarrow> (nat \<times> nat) set \<Rightarrow> real list list \<Rightarrow> real list list \<Rightarrow> bool" where
  "grid_after f W g g' \<longleftrightarrow>
     length g' = length g \<and>
     (\<forall>i<length g. length (g' ! i) = length (g ! i)) \<and>
     (\<forall>i<length g. \<forall>j<length (g ! i).
        g' ! i ! j = (if (i, j) \<in> W then f i j else g ! i ! j))"

section \<open>Auxiliary facts\<close>

lemma Phi_symmetric: "Phi x + Phi (- x) = 1"
  by (simp add: Phi_def)

lemma black_scholes_total:
  assumes "K \<noteq> 0"
  shows "black_scholes cdf S K T r sigma (kind_name k) = Inr (price_value cdf S K T r sigma k)"
  using assms
  by (cases k) (simp_all add: black_scholes_def price_value_def spec_d1_def spec_d2_def Let_def)

lemma grid_after_refl: "grid_after f {} g g"
  by (simp add: grid_after_def)

lemma grid_after_set_cell:
  assumes "grid_after f W g g'"
  shows "grid_after f (insert (i, j) W) g (set_cell g' i j (f i j))"
proof -
  let ?g = "set_cell g' i j (f i j)"
  from assms have len: "length g' = length g"
    and rows: "\<And>a. a < length g \<Longrightarrow> length (g' ! a) = length (g ! a)"
    and cells: "\<And>a b. a < length g \<Longrightarrow> b < length (g ! a) \<Longrightarrow>
                  g' ! a ! b = (if (a, b) \<in> W then f a b else g ! a ! b)"
    by (simp_all add: grid_after_def)
  have 1: "length ?g = length g"
    by (simp add: set_cell_def len)
  have 2: "length (?g ! a) = length (g ! a)" if "a < length g" for a
    using that len rows by (cases "a = i") (simp_all add: set_cell_def)
  have 3: "?g ! a ! b = (if (a, b) \<in> insert (i, j) W then f a b else g ! a ! b)"
    if "a < length g" "b < length (g ! a)" for a b
    using that len rows cells
    by (cases "a = i"; cases "b = j") (simp_all add: set_cell_def)
  show ?thesis
    unfolding grid_after_def using 1 2 3 by simp
qed

lemma fill_row_grid_after:
  assumes "K \<noteq> 0"
    and "grid_after (\<lambda>i j. price_value cdf (Sg ! i ! j) K T r (sg ! i ! j) Call) W ga cp"
    and "grid_after (\<lambda>i j. price_value cdf (Sg ! i ! j) K T r (sg ! i ! j) Put) W gb pp"
  shows "\<exists>cp' pp'. fill_row cdf Sg sg K T r i js (cp, pp) = Inr (cp', pp') \<and>
           grid_after (\<lambda>i j. price_value cdf (Sg ! i ! j) K T r (sg ! i ! j) Call)
             (W \<union> {i} \<times> set js) ga cp' \<and>
           grid_after (\<lambda>i j. price_value cdf (Sg ! i ! j) K T r (sg ! i ! j) Put)
             (W \<union> {i} \<times> set js) gb pp'"
  using assms(2,3)
proof (induction js arbitrary: W cp pp)
  case Nil
  then show ?case by simp
next
  case (Cons j js)
  let ?c = "price_value cdf (Sg ! i ! j) K T r (sg ! i ! j) Call"
  let ?p = "price_value cdf (Sg ! i ! j) K T r (sg ! i ! j) Put"
  have c: "black_scholes cdf (Sg ! i ! j) K T r (sg ! i ! j) ''call'' = Inr ?c"
    using black_scholes_total [OF assms(1), of cdf _ T r _ Call] by simp
  have p: "black_scholes cdf (Sg ! i ! j) K T r (sg ! i ! j) ''put'' = Inr ?p"
    using black_scholes_total [OF assms(1), of cdf _ T r _ Put] by simp
  have eq: "insert (i, j) W \<union> {i} \<times> set js = W \<union> {i} \<times> set (j # js)"
    by auto
  from Cons.IH [OF grid_after_set_cell [OF Cons.prems(1), of i j]
                   grid_after_set_cell [OF Cons.prems(2), of i j]]
  show ?case by (simp add: c p eq)
qed

lemma fill_grid_grid_after:
  assumes "K \<noteq> 0"
    and "grid_after (\<lambda>i j. price_value cdf (Sg ! i ! j) K T r (sg ! i ! j) Call) W ga cp"
    and "grid_after (\<lambda>i j. price_value cdf (Sg ! i ! j) K T r (sg ! i ! j) Put) W gb pp"
  shows "\<exists>cp' pp'. fill_grid cdf Sg sg K T r ks js (cp, pp) = Inr (cp', pp') \<and>
           grid_after (\<lambda>i j. price_value cdf (Sg ! i ! j) K T r (sg ! i ! j) Call)
             (W \<union> set ks \<times> set js) ga cp' \<and>
           grid_after (\<lambda>i j. price_value cdf (Sg ! i ! j) K T r (sg ! i ! j) Put)
             (W \<union> set ks \<times> set js) gb pp'"
  using assms(2,3)
proof (induction ks arbitrary: W cp pp)
  case Nil
  then show ?case by simp
next
  case (Cons i ks)
  from fill_row_grid_after [OF assms(1) Cons.prems, of i js]
  obtain cp1 pp1 where
    row: "fill_row cdf Sg sg K T r i js (cp, pp) = Inr (cp1, pp1)"
    and c1: "grid_after (\<lambda>i j. price_value cdf (Sg ! i ! j) K T r (sg ! i ! j) Call)
               (W \<union> {i} \<times> set js) ga cp1"
    and p1: "grid_after (\<lambda>i j. price_value cdf (Sg ! i ! j) K T r (sg ! i ! j) Put)
               (W \<union> {i} \<times> set js) gb pp1"
    by blast
  have eq: "W \<union> {i} \<times> set js \<union> set ks \<times> set js = W \<union> set (i # ks) \<times> set js"
    by auto
  from Cons.IH [OF c1 p1] show ?case by (simp add: row eq)
qed

lemma length_linspace: "length (linspace a b n) = n"
  by (simp add: linspace_def Let_def)

lemma nth_linspace:
  assumes "i < n" "1 < n"
  shows "linspace a b n ! i = a + real i * ((b - a) / real (n - 1))"
proof (cases "i = n - 1")
  case True
  with assms show ?thesis by (simp add: linspace_def Let_def)
next
  case False
  with assms show ?thesis by (simp add: linspace_def Let_def)
qed

lemma evenly_spaced_linspace:
  assumes "1 < n"
  shows "evenly_spaced (linspace a b n) a b n"
proof -
  from assms have n: "real (n - 1) \<noteq> 0" "real (n - 1) = real n - 1"
    by simp_all
  have first: "linspace a b n ! 0 = a"
    using assms nth_linspace [of 0 n a b] by simp
  have last: "linspace a b n ! (n - 1) = b"
    using assms nth_linspace [of "n - 1" n a b] n(1) by simp
  have step: "linspace a b n ! Suc i - linspace a b n ! i = (b - a) / real (n - 1)"
    if "Suc i < n" for i
    using that assms nth_linspace [of "Suc i" n a b] nth_linspace [of i n a b]
    by (simp add: algebra_simps add_divide_distrib diff_divide_distrib)
  show ?thesis
    unfolding evenly_spaced_def using first last step by (simp add: length_linspace)
qed

lemma meshgrid_shape:
  "meshgrid xs ys = (Sg, sg) \<Longrightarrow> shape0 Sg = length ys"
  "meshgrid xs ys = (Sg, sg) \<Longrightarrow> ys \<noteq> [] \<Longrightarrow> shape1 Sg = length xs"
  by (auto simp add: meshgrid_def shape0_def shape1_def neq_Nil_conv)

lemma meshgrid_nth:
  assumes "meshgrid xs ys = (Sg, sg)" "i < length ys" "j < length xs"
  shows "Sg ! i ! j = xs ! j" "sg ! i ! j = ys ! i"
  using assms by (auto simp add: meshgrid_def)

lemma zeros_like_meshgrid:
  assumes "meshgrid xs ys = (Sg, sg)"
  shows "length (zeros_like Sg) = length ys"
    and "i < length ys \<Longrightarrow> length (zeros_like Sg ! i) = length xs"
  using assms by (auto simp add: meshgrid_def zeros_like_def)

lemma main_accepted:
  assumes "0 < S" "0 < K" "0 \<le> T" "0 < sigma"
  defines "Sr \<equiv> linspace (S * 0.8) (S * 1.2) 10"
    and "sr \<equiv> linspace (sigma * 0.5) (sigma * 1.5) 10"
  shows "\<exists>cp pp. main cdf S K T r sigma =
           Inr (Rendered \<lparr>call_price = price_value cdf S K T r sigma Call,
                          put_price = price_value cdf S K T r sigma Put,
                          S_range = Sr, sigma_range = sr,
                          call_prices = cp, put_prices = pp\<rparr>) \<and>
           length cp = 10 \<and> length pp = 10 \<and>
           (\<forall>i<10. length (cp ! i) = 10 \<and> length (pp ! i) = 10) \<and>
           (\<forall>i<10. \<forall>j<10.
              cp ! i ! j = price_value cdf (Sr ! j) K T r (sr ! i) Call \<and>
              pp ! i ! j = price_value cdf (Sr ! j) K T r (sr ! i) Put)"
proof -
  obtain Sg sg where mg: "meshgrid Sr sr = (Sg, sg)"
    by (cases "meshgrid Sr sr")
  have lS: "length Sr = 10" and ls: "length sr = 10"
    by (simp_all add: Sr_def sr_def length_linspace)
  from ls have ne: "sr \<noteq> []" by auto
  have sh0: "shape0 Sg = 10" using meshgrid_shape(1) [OF mg] ls by simp
  have sh1: "shape1 Sg = 10" using meshgrid_shape(2) [OF mg ne] lS by simp
  let ?Z = "zeros_like Sg"
  let ?fc = "\<lambda>i j. price_value cdf (Sg ! i ! j) K T r (sg ! i ! j) Call"
  let ?fp = "\<lambda>i j. price_value cdf (Sg ! i ! j) K T r (sg ! i ! j) Put"
  from assms(2) have K: "K \<noteq> 0" by simp
  have zc: "grid_after ?fc {} ?Z ?Z" and zp: "grid_after ?fp {} ?Z ?Z"
    by (rule grid_after_refl)+
  from fill_grid_grid_after [OF K zc zp, of "[0..<10]" "[0..<10]"]
  obtain cp pp where
    fg: "fill_grid cdf Sg sg K T r [0..<10] [0..<10] (?Z, ?Z) = Inr (cp, pp)"
    and gc: "grid_after ?fc ({} \<union> set [0..<10] \<times> set [0..<10]) ?Z cp"
    and gp: "grid_after ?fp ({} \<union> set [0..<10] \<times> set [0..<10]) ?Z pp"
    by blast
  have lZ: "length ?Z = 10" using zeros_like_meshgrid(1) [OF mg] ls by simp
  have rZ: "length (?Z ! i) = 10" if "i < 10" for i
    using zeros_like_meshgrid(2) [OF mg, of i] that ls lS by simp
  have lcp: "length cp = 10" and lpp: "length pp = 10"
    using gc gp lZ by (simp_all add: grid_after_def)
  have rows: "length (cp ! i) = 10 \<and> length (pp ! i) = 10" if "i < 10" for i
    using gc gp lZ rZ [OF that] that by (simp add: grid_after_def)
  have cells: "cp ! i ! j = price_value cdf (Sr ! j) K T r (sr ! i) Call \<and>
               pp ! i ! j = price_value cdf (Sr ! j) K T r (sr ! i) Put"
    if "i < 10" "j < 10" for i j
  proof -
    have "Sg ! i ! j = Sr ! j" "sg ! i ! j = sr ! i"
      using meshgrid_nth [OF mg, of i j] that ls lS by simp_all
    moreover have "cp ! i ! j = ?fc i j" "pp ! i ! j = ?fp i j"
      using gc gp lZ rZ [OF that(1)] that by (simp_all add: grid_after_def)
    ultimately show ?thesis by simp
  qed
  have c: "black_scholes cdf S K T r sigma ''call'' = Inr (price_value cdf S K T r sigma Call)"
    using black_scholes_total [OF K, of cdf S T r sigma Call] by simp
  have p: "black_scholes cdf S K T r sigma ''put'' = Inr (price_value cdf S K T r sigma Put)"
    using black_scholes_total [OF K, of cdf S T r sigma Put] by simp
  have "main cdf S K T r sigma =
          Inr (Rendered \<lparr>call_price = price_value cdf S K T r sigma Call,
                         put_price = price_value cdf S K T r sigma Put,
                         S_range = Sr, sigma_range = sr,
                         call_prices = cp, put_prices = pp\<rparr>)"
  proof -
    have Sr: "linspace (S * 4 / 5) (S * 6 / 5) 10 = Sr"
      and sr: "linspace (sigma / 2) (sigma * 3 / 2) 10 = sr"
      by (simp_all add: Sr_def sr_def)
    show ?thesis
      using assms(1-4) fg by (simp add: main_def c p Let_def Sr sr mg sh0 sh1)
  qed
  with lcp lpp rows cells show ?thesis by blast
qed

section \<open>The series \<open>gauss_int\<close> and its derivative\<close>

text \<open>
  The series converges everywhere, so it may be differentiated term by term; the
  derivative of \<open>gauss_int\<close> is \<open>exp (- x\<^sup>2 / 2)\<close>.
\<close>

lemma gauss_coeff_term:
  "gauss_coeff n * u ^ n = (- u / 2) ^ n / (fact n * (2 * real n + 1))"
proof -
  have "(- u / 2) ^ n = (- 1 / 2) ^ n * u ^ n"
    by (simp add: power_mult_distrib [symmetric])
  then show ?thesis by (simp add: gauss_coeff_def)
qed

lemma gauss_series_coeff: "gauss_series u = (\<Sum>n. gauss_coeff n * u ^ n)"
  by (simp add: gauss_series_def gauss_coeff_term)

lemma gauss_coeff_summable: "summable (\<lambda>n. gauss_coeff n * u ^ n)"
proof (rule summable_comparison_test' [where N = 0])
  show "summable (\<lambda>n. norm ((u / 2) ^ n /\<^sub>R fact n))"
    by (rule summable_norm_exp)
next
  fix n :: nat
  have pos: "0 < fact n * (2 * real n + 1)"
    by (intro mult_pos_pos add_nonneg_pos) simp_all
  have le: "(fact n :: real) \<le> fact n * (2 * real n + 1)"
    by simp
  have "\<bar>fact n * (2 * real n + 1)\<bar> = fact n * (2 * real n + 1)"
    using pos by (rule abs_of_pos)
  then have "norm (gauss_coeff n * u ^ n) = \<bar>(- u / 2) ^ n\<bar> / (fact n * (2 * real n + 1))"
    by (simp only: gauss_coeff_term real_norm_def abs_divide)
  also have "\<dots> \<le> \<bar>(- u / 2) ^ n\<bar> / fact n"
    by (rule divide_left_mono [OF le]) simp_all
  also have "\<dots> = norm ((u / 2) ^ n /\<^sub>R fact n)"
  proof -
    have "\<bar>(- u / 2) ^ n\<bar> = \<bar>(u / 2) ^ n\<bar>"
      by (simp add: power_abs)
    then show ?thesis
      by (simp add: field_simps)
  qed
  finally show "norm (gauss_coeff n * u ^ n) \<le> norm ((u / 2) ^ n /\<^sub>R fact n)" .
qed

lemma gauss_series_deriv:
  "(gauss_series has_real_derivative (\<Sum>n. diffs gauss_coeff n * u ^ n)) (at u)"
proof -
  have "((\<lambda>u. \<Sum>n. gauss_coeff n * u ^ n) has_field_derivative
          (\<Sum>n. diffs gauss_coeff n * u ^ n)) (at u)"
    by (rule termdiffs_strong_converges_everywhere) (rule gauss_coeff_summable)
  moreover have "gauss_series = (\<lambda>u. \<Sum>n. gauss_coeff n * u ^ n)"
    by (rule ext) (rule gauss_series_coeff)
  ultimately show ?thesis by simp
qed

lemma gauss_series_ode:
  "gauss_series u + 2 * u * (\<Sum>n. diffs gauss_coeff n * u ^ n) = exp (- u / 2)"
proof -
  let ?D = "\<Sum>n. diffs gauss_coeff n * u ^ n"
  let ?f = "\<lambda>n. 2 * real n * gauss_coeff n * u ^ n"
  have s1: "(\<lambda>n. gauss_coeff n * u ^ n) sums gauss_series u"
    unfolding gauss_series_coeff by (rule summable_sums) (rule gauss_coeff_summable)
  have "summable (\<lambda>n. diffs gauss_coeff n * u ^ n)"
    by (rule termdiff_converges_all) (rule gauss_coeff_summable)
  then have "(\<lambda>n. diffs gauss_coeff n * u ^ n) sums ?D"
    by (rule summable_sums)
  then have "(\<lambda>n. (2 * u) * (diffs gauss_coeff n * u ^ n)) sums (2 * u * ?D)"
    by (rule sums_mult)
  moreover have "(2 * u) * (diffs gauss_coeff n * u ^ n) = ?f (Suc n)" for n
    by (simp add: diffs_def)
  ultimately have "(\<lambda>n. ?f (Suc n)) sums (2 * u * ?D)"
    by simp
  then have "?f sums (2 * u * ?D + ?f 0)"
    using sums_Suc_iff [of ?f "2 * u * ?D"] by blast
  then have s2: "?f sums (2 * u * ?D)"
    by simp
  have "(\<lambda>n. gauss_coeff n * u ^ n + ?f n) sums (gauss_series u + 2 * u * ?D)"
    by (rule sums_add [OF s1 s2])
  moreover have "gauss_coeff n * u ^ n + ?f n = (- u / 2) ^ n /\<^sub>R fact n" for n
  proof -
    have nz: "2 * real n + 1 \<noteq> 0"
      using of_nat_0_le_iff [of n, where ?'a = real] by linarith
    have "gauss_coeff n * u ^ n + ?f n = (2 * real n + 1) * (gauss_coeff n * u ^ n)"
      by (simp add: algebra_simps)
    also have "\<dots> = (2 * real n + 1) * ((- u / 2) ^ n / (fact n * (2 * real n + 1)))"
      by (simp only: gauss_coeff_term)
    also have "\<dots> = (- u / 2) ^ n / fact n"
      using nz by simp
    also have "\<dots> = (- u / 2) ^ n /\<^sub>R fact n"
      by (simp add: field_simps)
    finally show ?thesis .
  qed
  ultimately have "(\<lambda>n. (- u / 2) ^ n /\<^sub>R fact n) sums (gauss_series u + 2 * u * ?D)"
    by simp
  then show ?thesis
    using exp_converges [of "- u / 2"] by (rule sums_unique2)
qed

lemma gauss_int_deriv: "(gauss_int has_real_derivative exp (- x\<^sup>2 / 2)) (at x)"
proof -
  let ?D = "\<Sum>n. diffs gauss_coeff n * (x\<^sup>2) ^ n"
  have "((\<lambda>x. gauss_series (x\<^sup>2)) has_real_derivative ?D * (2 * x)) (at x)"
    by (rule DERIV_chain' [where g = gauss_series, OF _ gauss_series_deriv])
       (auto intro!: derivative_eq_intros)
  then have "((\<lambda>x. x * gauss_series (x\<^sup>2)) has_real_derivative
               1 * gauss_series (x\<^sup>2) + (?D * (2 * x)) * x) (at x)"
    by (intro DERIV_mult DERIV_ident)
  moreover have "1 * gauss_series (x\<^sup>2) + (?D * (2 * x)) * x = exp (- x\<^sup>2 / 2)"
    using gauss_series_ode [of "x\<^sup>2"] by (simp add: power2_eq_square algebra_simps)
  moreover have "gauss_int = (\<lambda>x. x * gauss_series (x\<^sup>2))"
    by (rule ext) (simp add: gauss_int_def)
  ultimately show ?thesis by simp
qed

lemma gauss_int_odd: "gauss_int (- x) = - gauss_int x"
  by (simp add: gauss_int_def)

lemma gauss_int_zero: "gauss_int 0 = 0"
  by (simp add: gauss_int_def)

section \<open>Integrals of the powers of the cosine\<close>

text \<open>
  \<open>cos_int k\<close> has the derivative \<open>cos x ^ k\<close> and vanishes at 0. Its values at
  \<open>pi / 2\<close> decrease in \<open>k\<close>, and \<open>(k + 1) * wallis k * wallis (k + 1) = pi / 2\<close>,
  which bounds \<open>(wallis k)\<^sup>2\<close> from both sides.
\<close>

lemma cos_int_deriv: "(cos_int k has_real_derivative cos x ^ k) (at x)"
proof (induction k x rule: cos_int.induct)
  case (1 x)
  have "cos_int 0 = (\<lambda>x. x)" by (rule ext) simp
  then show ?case by simp
next
  case (2 x)
  have "cos_int (Suc 0) = sin" by (rule ext) simp
  then show ?case by simp
next
  case (3 k x)
  have eq: "cos_int (Suc (Suc k)) =
      (\<lambda>x. (real (Suc k) * cos_int k x + cos x ^ Suc k * sin x) / real (Suc (Suc k)))"
    by (rule ext) simp
  have "((\<lambda>x. (real (Suc k) * cos_int k x + cos x ^ Suc k * sin x) / real (Suc (Suc k)))
          has_real_derivative
          (real (Suc k) * cos x ^ k
            + (real (Suc k) * cos x ^ k * (- sin x) * sin x + cos x ^ Suc k * cos x))
          / real (Suc (Suc k))) (at x)"
    by (rule derivative_eq_intros "3.IH" refl | simp)+
  moreover have "(real (Suc k) * cos x ^ k
            + (real (Suc k) * cos x ^ k * (- sin x) * sin x + cos x ^ Suc k * cos x))
          / real (Suc (Suc k)) = cos x ^ Suc (Suc k)"
  proof -
    have s: "sin x * sin x = 1 - cos x * cos x"
      using sin_cos_squared_add [of x] by (simp add: power2_eq_square)
    have "real (Suc k) * cos x ^ k
            + (real (Suc k) * cos x ^ k * (- sin x) * sin x + cos x ^ Suc k * cos x)
          = real (Suc k) * cos x ^ k * (1 - sin x * sin x) + cos x ^ Suc k * cos x"
      by (simp add: algebra_simps)
    also have "\<dots> = real (Suc (Suc k)) * cos x ^ Suc (Suc k)"
      unfolding s by (simp add: algebra_simps)
    finally show ?thesis by simp
  qed
  ultimately show ?case unfolding eq by simp
qed

lemma cos_int_zero: "cos_int k 0 = 0"
  by (induction k "0::real" rule: cos_int.induct) simp_all

lemma wallis_0: "wallis 0 = pi / 2"
  by (simp add: wallis_def)

lemma wallis_1: "wallis (Suc 0) = 1"
  by (simp add: wallis_def)

lemma wallis_Suc_Suc: "wallis (Suc (Suc k)) = real (Suc k) / real (Suc (Suc k)) * wallis k"
  by (simp add: wallis_def)

lemma wallis_pos: "0 < wallis k"
proof (induction k rule: induct_nat_012)
  case 0
  then show ?case by (simp add: wallis_0)
next
  case 1
  then show ?case by (simp add: wallis_1)
next
  case (ge2 n)
  then show ?case by (simp only: wallis_Suc_Suc) simp
qed

lemma wallis_prod: "real (Suc k) * wallis k * wallis (Suc k) = pi / 2"
proof (induction k)
  case 0
  then show ?case by (simp add: wallis_0 wallis_1)
next
  case (Suc k)
  have e: "real (Suc (Suc k)) * wallis (Suc (Suc k)) = real (Suc k) * wallis k"
    by (simp add: wallis_Suc_Suc)
  have "real (Suc (Suc k)) * wallis (Suc k) * wallis (Suc (Suc k))
          = (real (Suc (Suc k)) * wallis (Suc (Suc k))) * wallis (Suc k)"
    by (simp only: mult_ac)
  also have "\<dots> = real (Suc k) * wallis k * wallis (Suc k)"
    by (simp only: e)
  also have "\<dots> = pi / 2"
    by (rule Suc)
  finally show ?case .
qed

lemma cos_int_mono:
  assumes "0 \<le> a" "a \<le> b" "b \<le> pi / 2"
  shows "cos_int k a \<le> cos_int k b"
proof (rule DERIV_nonneg_imp_nondecreasing [OF assms(2)])
  fix x assume "a \<le> x" "x \<le> b"
  with assms have "0 \<le> cos x"
    by (intro cos_ge_zero) simp_all
  then have "0 \<le> cos x ^ k" by simp
  with cos_int_deriv [of k x]
  show "\<exists>y. (cos_int k has_real_derivative y) (at x) \<and> 0 \<le> y" by blast
qed

lemma wallis_mono: "wallis (Suc k) \<le> wallis k"
proof -
  let ?f = "\<lambda>x. cos_int k x - cos_int (Suc k) x"
  have "?f 0 \<le> ?f (pi / 2)"
  proof (rule DERIV_nonneg_imp_nondecreasing [of 0 "pi / 2" ?f])
    show "0 \<le> pi / 2" by simp
  next
    fix x :: real assume x: "0 \<le> x" "x \<le> pi / 2"
    then have c0: "0 \<le> cos x" by (intro cos_ge_zero) simp_all
    have c1: "cos x \<le> 1" by simp
    have "(?f has_real_derivative cos x ^ k - cos x ^ Suc k) (at x)"
      by (intro DERIV_diff cos_int_deriv)
    moreover have "0 \<le> cos x ^ k - cos x ^ Suc k"
    proof -
      have "cos x ^ k - cos x ^ Suc k = cos x ^ k * (1 - cos x)"
        by (simp add: algebra_simps)
      also have "0 \<le> \<dots>" using c0 c1 by (intro mult_nonneg_nonneg) simp_all
      finally show ?thesis .
    qed
    ultimately show "\<exists>y. (?f has_real_derivative y) (at x) \<and> 0 \<le> y" by blast
  qed
  then show ?thesis by (simp add: cos_int_zero wallis_def)
qed

lemma wallis_sq_lower: "pi / (2 * real (Suc k)) \<le> (wallis k)\<^sup>2"
proof -
  have "pi / 2 = real (Suc k) * (wallis k * wallis (Suc k))"
    using wallis_prod [of k] by (simp add: mult.assoc)
  also have "\<dots> \<le> real (Suc k) * (wallis k * wallis k)"
    using wallis_mono [of k] wallis_pos [of k]
    by (intro mult_left_mono) simp_all
  finally have "pi / 2 \<le> (wallis k)\<^sup>2 * real (Suc k)"
    by (simp add: power2_eq_square mult.commute)
  then have "pi / 2 / real (Suc k) \<le> (wallis k)\<^sup>2"
    by (subst pos_divide_le_eq) simp_all
  then show ?thesis by simp
qed

lemma wallis_sq_upper: "(wallis (Suc k))\<^sup>2 \<le> pi / (2 * real (Suc k))"
proof -
  have "real (Suc k) * (wallis (Suc k) * wallis (Suc k))
          \<le> real (Suc k) * (wallis k * wallis (Suc k))"
    using wallis_mono [of k] wallis_pos [of "Suc k"]
    by (intro mult_left_mono mult_right_mono) simp_all
  also have "\<dots> = pi / 2"
    using wallis_prod [of k] by (simp add: mult.assoc)
  finally have "(wallis (Suc k))\<^sup>2 * real (Suc k) \<le> pi / 2"
    by (simp add: power2_eq_square mult.commute)
  then have "(wallis (Suc k))\<^sup>2 \<le> pi / 2 / real (Suc k)"
    by (subst pos_le_divide_eq) simp_all
  then show ?thesis by simp
qed

section \<open>The Gaussian integral\<close>

text \<open>
  From \<open>1 + y \<le> exp y\<close>: for \<open>0 \<le> x\<close> the value \<open>gauss_int x\<close> is at most
  \<open>sqrt (2 * n) * wallis (2 * n - 2)\<close>, and \<open>gauss_int (sqrt (2 * n))\<close> is at least
  \<open>sqrt (2 * n) * wallis (2 * n + 1)\<close>. With the bounds on \<open>wallis\<close> both sides
  tend to \<open>sqrt (pi / 2)\<close>.
\<close>

lemma gauss_int_nonneg:
  assumes "0 \<le> x"
  shows "0 \<le> gauss_int x"
proof -
  have "gauss_int 0 \<le> gauss_int x"
  proof (rule DERIV_nonneg_imp_nondecreasing [OF assms])
    fix t :: real
    show "\<exists>y. (gauss_int has_real_derivative y) (at t) \<and> 0 \<le> y"
      using gauss_int_deriv [of t] by (intro exI [of _ "exp (- t\<^sup>2 / 2)"]) simp
  qed
  then show ?thesis by (simp add: gauss_int_zero)
qed

lemma gauss_int_mono:
  assumes "a \<le> b"
  shows "gauss_int a \<le> gauss_int b"
proof (rule DERIV_nonneg_imp_nondecreasing [OF assms])
  fix t :: real
  show "\<exists>y. (gauss_int has_real_derivative y) (at t) \<and> 0 \<le> y"
    using gauss_int_deriv [of t] by (intro exI [of _ "exp (- t\<^sup>2 / 2)"]) simp
qed

lemma exp_neg_le_inverse_power:
  fixes y :: real
  shows "exp (- (real (Suc m) * y\<^sup>2)) \<le> inverse ((1 + y\<^sup>2) ^ Suc m)"
proof -
  have p: "0 < (1 + y\<^sup>2) ^ Suc m"
    by (intro zero_less_power add_pos_nonneg) simp_all
  have "(1 + y\<^sup>2) ^ Suc m \<le> exp (y\<^sup>2) ^ Suc m"
    by (intro power_mono exp_ge_add_one_self add_nonneg_nonneg) simp_all
  also have "\<dots> = exp (real (Suc m) * y\<^sup>2)"
    by (simp only: exp_of_nat_mult)
  finally have "inverse (exp (real (Suc m) * y\<^sup>2)) \<le> inverse ((1 + y\<^sup>2) ^ Suc m)"
    using p by (rule le_imp_inverse_le)
  then show ?thesis by (simp only: exp_minus)
qed

lemma gauss_int_le_cos_int:
  fixes m :: nat
  assumes "0 \<le> x"
  shows "gauss_int x \<le> sqrt (2 * real (Suc m)) * cos_int (2 * m) (arctan (x / sqrt (2 * real (Suc m))))"
proof -
  define s where "s = sqrt (2 * real (Suc m))"
  have s: "0 < s" "s\<^sup>2 = 2 * real (Suc m)"
    by (simp_all add: s_def)
  let ?G = "\<lambda>t. s * cos_int (2 * m) (arctan (t / s)) - gauss_int t"
  have "?G 0 \<le> ?G x"
  proof (rule DERIV_nonneg_imp_nondecreasing [of 0 x ?G, OF assms])
    fix t :: real
    define y where "y = t / s"
    define c where "c = cos (arctan y)"
    have d1: "((\<lambda>t. t / s) has_real_derivative 1 / s) (at t)"
      using DERIV_cdivide [OF DERIV_ident, of s t] by simp
    have d2: "((\<lambda>t. arctan (t / s)) has_real_derivative inverse (1 + y\<^sup>2) * (1 / s)) (at t)"
      unfolding y_def by (rule DERIV_chain' [OF d1 DERIV_arctan])
    have d3: "((\<lambda>t. cos_int (2 * m) (arctan (t / s))) has_real_derivative
                c ^ (2 * m) * (inverse (1 + y\<^sup>2) * (1 / s))) (at t)"
      unfolding c_def y_def
      by (rule DERIV_chain' [OF d2 [unfolded y_def] cos_int_deriv])
    have d4: "(?G has_real_derivative
                s * (c ^ (2 * m) * (inverse (1 + y\<^sup>2) * (1 / s))) - exp (- t\<^sup>2 / 2)) (at t)"
      by (intro DERIV_diff DERIV_cmult d3 gauss_int_deriv)
    have c2: "c\<^sup>2 = inverse (1 + y\<^sup>2)"
    proof -
      have "0 < 1 + y\<^sup>2" by (intro add_pos_nonneg) simp_all
      then show ?thesis
        by (simp add: c_def cos_arctan power_divide inverse_eq_divide)
    qed
    have "s * (c ^ (2 * m) * (inverse (1 + y\<^sup>2) * (1 / s)))
            = c ^ (2 * m) * inverse (1 + y\<^sup>2)"
      using s(1) by simp
    also have "\<dots> = inverse (1 + y\<^sup>2) ^ Suc m"
      by (simp add: power_mult c2)
    also have "\<dots> = inverse ((1 + y\<^sup>2) ^ Suc m)"
      by (simp only: power_inverse)
    finally have e1: "s * (c ^ (2 * m) * (inverse (1 + y\<^sup>2) * (1 / s)))
            = inverse ((1 + y\<^sup>2) ^ Suc m)" .
    have "real (Suc m) * y\<^sup>2 = t\<^sup>2 / 2"
    proof -
      have nz: "real (Suc m) \<noteq> 0" by simp
      have "y\<^sup>2 = t\<^sup>2 / (2 * real (Suc m))"
        by (simp only: y_def power_divide s(2))
      then have "real (Suc m) * y\<^sup>2 = real (Suc m) * t\<^sup>2 / (2 * real (Suc m))"
        by simp
      also have "\<dots> = t\<^sup>2 / 2"
        using nz by (simp only: mult_divide_mult_cancel_left_if mult.commute [of 2]) simp
      finally show ?thesis .
    qed
    then have e2: "exp (- t\<^sup>2 / 2) = exp (- (real (Suc m) * y\<^sup>2))"
      by simp
    have "0 \<le> s * (c ^ (2 * m) * (inverse (1 + y\<^sup>2) * (1 / s))) - exp (- t\<^sup>2 / 2)"
      unfolding e1 e2 using exp_neg_le_inverse_power [of m y] by simp
    with d4 show "\<exists>D. (?G has_real_derivative D) (at t) \<and> 0 \<le> D"
      by blast
  qed
  then have "gauss_int x \<le> s * cos_int (2 * m) (arctan (x / s))"
    by (simp add: cos_int_zero gauss_int_zero)
  then show ?thesis by (simp only: s_def)
qed

lemma gauss_int_le_wallis:
  assumes "0 \<le> x"
  shows "gauss_int x \<le> sqrt (2 * real (Suc m)) * wallis (2 * m)"
proof -
  let ?s = "sqrt (2 * real (Suc m))"
  have "0 \<le> x / ?s" using assms by simp
  then have "0 \<le> arctan (x / ?s)" by simp
  moreover have "arctan (x / ?s) \<le> pi / 2"
    using arctan_ubound [of "x / ?s"] by simp
  ultimately have "cos_int (2 * m) (arctan (x / ?s)) \<le> cos_int (2 * m) (pi / 2)"
    by (intro cos_int_mono) simp_all
  then have "?s * cos_int (2 * m) (arctan (x / ?s)) \<le> ?s * wallis (2 * m)"
    unfolding wallis_def by (intro mult_left_mono) simp_all
  with gauss_int_le_cos_int [OF assms, of m] show ?thesis by linarith
qed

lemma gauss_int_sq_upper:
  assumes "0 \<le> x"
  shows "(gauss_int x)\<^sup>2 \<le> pi / 2 * (real (Suc (Suc m)) / real (Suc m))"
proof -
  let ?n = "Suc m"
  have "(gauss_int x)\<^sup>2 \<le> (sqrt (2 * real (Suc ?n)) * wallis (2 * ?n))\<^sup>2"
    using gauss_int_nonneg [OF assms] gauss_int_le_wallis [OF assms, of ?n]
    by (intro power_mono) simp_all
  also have "\<dots> = 2 * real (Suc ?n) * (wallis (2 * ?n))\<^sup>2"
    by (simp add: power_mult_distrib)
  also have "\<dots> \<le> 2 * real (Suc ?n) * (pi / (2 * real (Suc (2 * m + 1))))"
  proof -
    have "2 * ?n = Suc (2 * m + 1)" by simp
    then have "(wallis (2 * ?n))\<^sup>2 \<le> pi / (2 * real (Suc (2 * m + 1)))"
      using wallis_sq_upper [of "2 * m + 1"] by simp
    then show ?thesis by (intro mult_left_mono) simp_all
  qed
  also have "\<dots> = pi / 2 * (real (Suc (Suc m)) / real (Suc m))"
    by (simp add: field_simps)
  finally show ?thesis .
qed

lemma gauss_int_le_limit:
  assumes "0 \<le> x"
  shows "gauss_int x \<le> sqrt (pi / 2)"
proof -
  have lim: "(\<lambda>n. pi / 2 * (real (Suc n) / real n)) \<longlonglongrightarrow> pi / 2 * 1"
    by (intro tendsto_mult tendsto_const LIMSEQ_Suc_n_over_n)
  have "\<forall>n\<ge>1. (gauss_int x)\<^sup>2 \<le> pi / 2 * (real (Suc n) / real n)"
  proof (intro allI impI)
    fix n :: nat assume "1 \<le> n"
    then obtain m where "n = Suc m" by (cases n) simp_all
    then show "(gauss_int x)\<^sup>2 \<le> pi / 2 * (real (Suc n) / real n)"
      using gauss_int_sq_upper [OF assms, of m] by simp
  qed
  then have "\<exists>N. \<forall>n\<ge>N. (gauss_int x)\<^sup>2 \<le> pi / 2 * (real (Suc n) / real n)"
    by blast
  with lim have "(gauss_int x)\<^sup>2 \<le> pi / 2 * 1"
    by (rule LIMSEQ_le_const)
  then show ?thesis
    by (intro real_le_rsqrt) simp
qed

lemma wallis_le_gauss_int:
  "sqrt (2 * real (Suc m)) * wallis (Suc (2 * Suc m)) \<le> gauss_int (sqrt (2 * real (Suc m)))"
proof -
  define s where "s = sqrt (2 * real (Suc m))"
  define k where "k = Suc (2 * Suc m)"
  have s: "0 < s" "s\<^sup>2 = 2 * real (Suc m)"
    by (simp_all add: s_def)
  let ?F = "\<lambda>x. gauss_int (s * sin x) - s * cos_int k x"
  have "?F 0 \<le> ?F (pi / 2)"
  proof (rule DERIV_nonneg_imp_nondecreasing [of 0 "pi / 2" ?F])
    show "0 \<le> pi / 2" by simp
  next
    fix x :: real assume x: "0 \<le> x" "x \<le> pi / 2"
    then have c0: "0 \<le> cos x" by (intro cos_ge_zero) simp_all
    have d1: "((\<lambda>x. s * sin x) has_real_derivative s * cos x) (at x)"
      by (intro DERIV_cmult DERIV_sin)
    have d2: "((\<lambda>x. gauss_int (s * sin x)) has_real_derivative
                exp (- (s * sin x)\<^sup>2 / 2) * (s * cos x)) (at x)"
      by (rule DERIV_chain' [OF d1 gauss_int_deriv])
    have d3: "(?F has_real_derivative
                exp (- (s * sin x)\<^sup>2 / 2) * (s * cos x) - s * cos x ^ k) (at x)"
      by (intro DERIV_diff DERIV_cmult d2 cos_int_deriv)
    have e: "exp (- (s * sin x)\<^sup>2 / 2) = exp (- (sin x)\<^sup>2) ^ Suc m"
    proof -
      have "(s * sin x)\<^sup>2 / 2 = real (Suc m) * (sin x)\<^sup>2"
        by (simp add: power_mult_distrib s(2))
      then have "- (s * sin x)\<^sup>2 / 2 = real (Suc m) * (- (sin x)\<^sup>2)"
        by simp
      then show ?thesis by (simp only: exp_of_nat_mult)
    qed
    have c2: "(cos x)\<^sup>2 = 1 + - (sin x)\<^sup>2"
      using sin_cos_squared_add [of x] by linarith
    have "cos x ^ (2 * Suc m) = ((cos x)\<^sup>2) ^ Suc m"
      by (simp only: power_mult)
    also have "\<dots> \<le> exp (- (sin x)\<^sup>2) ^ Suc m"
    proof (rule power_mono)
      show "(cos x)\<^sup>2 \<le> exp (- (sin x)\<^sup>2)"
        unfolding c2 by (rule exp_ge_add_one_self)
      show "0 \<le> (cos x)\<^sup>2" by simp
    qed
    finally have le: "cos x ^ (2 * Suc m) \<le> exp (- (s * sin x)\<^sup>2 / 2)"
      by (simp only: e)
    have "s * cos x ^ k = (s * cos x) * cos x ^ (2 * Suc m)"
      by (simp add: k_def)
    also have "\<dots> \<le> (s * cos x) * exp (- (s * sin x)\<^sup>2 / 2)"
      using s(1) c0 by (intro mult_left_mono [OF le] mult_nonneg_nonneg) simp_all
    finally have "0 \<le> exp (- (s * sin x)\<^sup>2 / 2) * (s * cos x) - s * cos x ^ k"
      by (simp add: mult.commute)
    with d3 show "\<exists>D. (?F has_real_derivative D) (at x) \<and> 0 \<le> D"
      by blast
  qed
  then have "s * wallis k \<le> gauss_int s"
    by (simp add: gauss_int_zero cos_int_zero wallis_def)
  then show ?thesis by (simp only: s_def k_def)
qed

lemma gauss_int_sq_lower:
  "pi / 2 * (real (Suc m) / real (Suc (Suc m))) \<le> (gauss_int (sqrt (2 * real (Suc m))))\<^sup>2"
proof -
  let ?s = "sqrt (2 * real (Suc m))"
  let ?k = "Suc (2 * Suc m)"
  have "pi / 2 * (real (Suc m) / real (Suc (Suc m))) = 2 * real (Suc m) * (pi / (2 * real (Suc ?k)))"
    by (simp add: field_simps)
  also have "\<dots> \<le> 2 * real (Suc m) * (wallis ?k)\<^sup>2"
    by (intro mult_left_mono wallis_sq_lower) simp_all
  also have "\<dots> = (?s * wallis ?k)\<^sup>2"
    by (simp add: power_mult_distrib)
  also have "\<dots> \<le> (gauss_int ?s)\<^sup>2"
  proof (rule power_mono [OF wallis_le_gauss_int])
    show "0 \<le> ?s * wallis ?k"
      using wallis_pos [of ?k] by (intro mult_nonneg_nonneg) simp_all
  qed
  finally show ?thesis .
qed

lemma gauss_int_at_top: "(gauss_int \<longlongrightarrow> sqrt (pi / 2)) at_top"
proof (rule order_tendstoI)
  fix a :: real assume a: "a < sqrt (pi / 2)"
  have "(\<lambda>n. sqrt (pi / 2 * (real n / real (Suc n)))) \<longlonglongrightarrow> sqrt (pi / 2 * 1)"
    by (intro tendsto_real_sqrt tendsto_mult tendsto_const LIMSEQ_n_over_Suc_n)
  then have "eventually (\<lambda>n. a < sqrt (pi / 2 * (real n / real (Suc n)))) sequentially"
    using a by (intro order_tendstoD(1)) simp_all
  then obtain N where N: "\<And>n. N \<le> n \<Longrightarrow> a < sqrt (pi / 2 * (real n / real (Suc n)))"
    by (auto simp add: eventually_sequentially)
  define m where "m = N"
  have am: "a < sqrt (pi / 2 * (real (Suc m) / real (Suc (Suc m))))"
    using N [of "Suc m"] by (simp add: m_def)
  let ?s = "sqrt (2 * real (Suc m))"
  have "sqrt (pi / 2 * (real (Suc m) / real (Suc (Suc m)))) \<le> sqrt ((gauss_int ?s)\<^sup>2)"
    by (simp only: real_sqrt_le_iff gauss_int_sq_lower)
  also have "\<dots> = gauss_int ?s"
    using gauss_int_nonneg [of ?s] by simp
  finally have "a < gauss_int ?s" using am by simp
  then have "\<forall>x\<ge>?s. a < gauss_int x"
    using gauss_int_mono by (meson less_le_trans)
  then show "eventually (\<lambda>x. a < gauss_int x) at_top"
    unfolding eventually_at_top_linorder by blast
next
  fix a :: real assume a: "sqrt (pi / 2) < a"
  have "\<forall>x\<ge>0. gauss_int x < a"
    using gauss_int_le_limit a by (meson le_less_trans)
  then show "eventually (\<lambda>x. gauss_int x < a) at_top"
    unfolding eventually_at_top_linorder by blast
qed

section \<open>Properties of the distribution function\<close>

text \<open>
  \<open>Phi\<close> is a standard normal distribution function, and the only one. Every
  such function is monotone, lies between 0 and 1, and obeys the tail bound
  \<open>- x * cdf x \<le> norm_pdf x\<close> for negative \<open>x\<close>, so that
  \<open>cdf x * exp (x\<^sup>2 / 2)\<close> is monotone.
\<close>

lemma Phi_gauss_int: "Phi x = 1 / 2 + gauss_int x / sqrt (2 * pi)"
  by (simp add: Phi_def gauss_int_def)

lemma Phi_deriv: "(Phi has_real_derivative norm_pdf x) (at x)"
proof -
  have "((\<lambda>x. 1 / 2 + gauss_int x / sqrt (2 * pi)) has_real_derivative
          0 + exp (- x\<^sup>2 / 2) / sqrt (2 * pi)) (at x)"
    by (intro DERIV_add DERIV_const DERIV_cdivide gauss_int_deriv)
  moreover have "Phi = (\<lambda>x. 1 / 2 + gauss_int x / sqrt (2 * pi))"
    by (rule ext) (rule Phi_gauss_int)
  ultimately show ?thesis by (simp add: norm_pdf_def)
qed

lemma Phi_at_top: "(Phi \<longlongrightarrow> 1) at_top"
proof -
  have "((\<lambda>x. 1 / 2 + gauss_int x / sqrt (2 * pi)) \<longlongrightarrow>
          1 / 2 + sqrt (pi / 2) / sqrt (2 * pi)) at_top"
    by (intro tendsto_add tendsto_const tendsto_divide gauss_int_at_top) simp
  moreover have "sqrt (pi / 2) / sqrt (2 * pi) = 1 / 2"
  proof -
    have "sqrt (pi / 2) / sqrt (2 * pi) = sqrt ((pi / 2) / (2 * pi))"
      by (simp only: real_sqrt_divide)
    also have "(pi / 2) / (2 * pi) = (1 / 2)\<^sup>2"
      by (simp add: power2_eq_square)
    also have "sqrt ((1 / 2)\<^sup>2) = 1 / 2"
      by (simp only: real_sqrt_abs)
    finally show ?thesis .
  qed
  moreover have "Phi = (\<lambda>x. 1 / 2 + gauss_int x / sqrt (2 * pi))"
    by (rule ext) (rule Phi_gauss_int)
  ultimately show ?thesis by simp
qed

lemma Phi_at_bot: "(Phi \<longlongrightarrow> 0) at_bot"
proof -
  have "((\<lambda>x. Phi (- x)) \<longlongrightarrow> 1) at_bot"
    by (rule filterlim_compose [OF Phi_at_top filterlim_uminus_at_top_at_bot])
  then have "((\<lambda>x. 1 - Phi (- x)) \<longlongrightarrow> 1 - 1) at_bot"
    by (intro tendsto_diff tendsto_const)
  moreover have "Phi = (\<lambda>x. 1 - Phi (- x))"
  proof (rule ext)
    fix x show "Phi x = 1 - Phi (- x)"
      using Phi_symmetric [of x] by simp
  qed
  ultimately show ?thesis by simp
qed

lemma Phi_std_normal_cdf: "std_normal_cdf Phi"
  unfolding std_normal_cdf_def using Phi_deriv Phi_at_bot Phi_at_top by blast

lemma norm_pdf_pos: "0 < norm_pdf x"
  by (simp add: norm_pdf_def)

lemma norm_pdf_even: "norm_pdf (- x) = norm_pdf x"
  by (simp add: norm_pdf_def)


lemma cdf_mono:
  assumes "std_normal_cdf cdf" "a \<le> b"
  shows "cdf a \<le> cdf b"
proof (rule DERIV_nonneg_imp_nondecreasing [OF assms(2)])
  fix x :: real
  from assms(1) have "(cdf has_real_derivative norm_pdf x) (at x)"
    by (simp add: std_normal_cdf_def)
  then show "\<exists>y. (cdf has_real_derivative y) (at x) \<and> 0 \<le> y"
    using norm_pdf_pos [of x] by (intro exI [of _ "norm_pdf x"]) simp
qed

lemma cdf_nonneg:
  assumes "std_normal_cdf cdf"
  shows "0 \<le> cdf x"
proof (rule tendsto_upperbound)
  show "(cdf \<longlongrightarrow> 0) at_bot"
    using assms by (simp add: std_normal_cdf_def)
  show "eventually (\<lambda>y. cdf y \<le> cdf x) at_bot"
    unfolding eventually_at_bot_linorder using cdf_mono [OF assms] by blast
qed simp

lemma cdf_le_one:
  assumes "std_normal_cdf cdf"
  shows "cdf x \<le> 1"
proof (rule tendsto_lowerbound)
  show "(cdf \<longlongrightarrow> 1) at_top"
    using assms by (simp add: std_normal_cdf_def)
  show "eventually (\<lambda>y. cdf x \<le> cdf y) at_top"
    unfolding eventually_at_top_linorder using cdf_mono [OF assms] by blast
qed simp



lemma std_normal_cdf_unique:
  assumes "std_normal_cdf cdf"
  shows "cdf x = Phi x"
proof -
  let ?d = "\<lambda>x. cdf x - Phi x"
  have der: "(?d has_real_derivative 0) (at t)" for t
  proof -
    have "(cdf has_real_derivative norm_pdf t) (at t)"
      using assms by (simp add: std_normal_cdf_def)
    then have "(?d has_real_derivative norm_pdf t - norm_pdf t) (at t)"
      by (intro DERIV_diff Phi_deriv)
    then show ?thesis by simp
  qed
  define c where "c = cdf x - Phi x"
  have const: "cdf y - Phi y = c" for y
    unfolding c_def using DERIV_isconst_all [of ?d y x] der by blast
  have lim: "(?d \<longlongrightarrow> 0 - 0) at_bot"
    using assms by (intro tendsto_diff Phi_at_bot) (simp add: std_normal_cdf_def)
  have "(?d \<longlongrightarrow> c) at_bot"
    by (rule tendsto_eventually) (simp add: const)
  with lim have "0 - 0 = c"
    by (intro tendsto_unique [of at_bot ?d]) simp_all
  then have "cdf x - Phi x = 0"
    by (simp add: c_def)
  then show ?thesis by simp
qed

lemma std_normal_cdf_symmetric:
  assumes "std_normal_cdf cdf"
  shows "cdf x + cdf (- x) = 1"
  using Phi_symmetric [of x] by (simp only: std_normal_cdf_unique [OF assms])

section \<open>The Black-Scholes value as a function of the spot\<close>

text \<open>
  With \<open>d1\<close> and \<open>d2\<close> of the specification,
  \<open>d1\<^sup>2 / 2 - d2\<^sup>2 / 2 = ln (S / K) + r * T\<close>. Hence
  \<open>S * norm_pdf d1 = K * exp (- r * T) * norm_pdf d2\<close>, the derivative of the call in
  the spot is \<open>cdf d1\<close> and that of the put is \<open>- cdf (- d1)\<close>.
\<close>

lemma d1_d2_squares:
  assumes "0 < T" "0 < sigma"
  shows "(spec_d1 S K T r sigma)\<^sup>2 / 2 - (spec_d2 S K T r sigma)\<^sup>2 / 2 = ln (S / K) + r * T"
proof -
  define v where "v = sigma * sqrt T"
  define N where "N = ln (S / K) + (r + sigma\<^sup>2 / 2) * T"
  have v: "v \<noteq> 0" "v\<^sup>2 = sigma\<^sup>2 * T"
    using assms by (simp_all add: v_def power_mult_distrib)
  have d1: "spec_d1 S K T r sigma = N / v"
    by (simp add: spec_d1_def N_def v_def)
  have d2: "spec_d2 S K T r sigma = N / v - v"
    by (simp add: spec_d2_def d1 v_def)
  have "w\<^sup>2 / 2 - (w - v)\<^sup>2 / 2 = w * v - v\<^sup>2 / 2" for w :: real
    by (simp add: power2_diff field_simps)
  then have "(N / v)\<^sup>2 / 2 - (N / v - v)\<^sup>2 / 2 = (N / v) * v - v\<^sup>2 / 2" .
  also have "\<dots> = N - sigma\<^sup>2 * T / 2"
    using v by simp
  also have "\<dots> = ln (S / K) + r * T"
    by (simp add: N_def algebra_simps)
  finally show ?thesis by (simp only: d1 d2)
qed

lemma exp_d1_d2:
  assumes "0 < S" "0 < K" "0 < T" "0 < sigma"
  shows "exp ((spec_d1 S K T r sigma)\<^sup>2 / 2)
           = exp ((spec_d2 S K T r sigma)\<^sup>2 / 2) * (S / K * exp (r * T))"
proof -
  let ?a = "(spec_d1 S K T r sigma)\<^sup>2 / 2"
  let ?b = "(spec_d2 S K T r sigma)\<^sup>2 / 2"
  have "?a = ?b + (ln (S / K) + r * T)"
    using d1_d2_squares [OF assms(3,4), of S K r] by simp
  then have "exp ?a = exp ?b * (exp (ln (S / K)) * exp (r * T))"
    by (simp only: exp_add)
  moreover have "exp (ln (S / K)) = S / K"
    using assms(1,2) by simp
  ultimately show ?thesis by simp
qed


lemma spec_d1_deriv:
  assumes "0 < S" "0 < K"
  shows "((\<lambda>S. spec_d1 S K T r sigma) has_real_derivative
           1 / S / (sigma * sqrt T)) (at S)"
proof -
  have "((\<lambda>S. S / K) has_real_derivative 1 / K) (at S)"
    using DERIV_cdivide [OF DERIV_ident, of K S] by simp
  moreover have "(ln has_real_derivative inverse (S / K)) (at (S / K))"
    using assms by (intro DERIV_ln) simp
  ultimately have "((\<lambda>S. ln (S / K)) has_real_derivative inverse (S / K) * (1 / K)) (at S)"
    by (rule DERIV_chain')
  moreover have "inverse (S / K) * (1 / K) = 1 / S"
    using assms by (simp add: field_simps)
  ultimately have "((\<lambda>S. ln (S / K)) has_real_derivative 1 / S) (at S)"
    by simp
  then have "((\<lambda>S. ln (S / K) + (r + sigma\<^sup>2 / 2) * T) has_real_derivative 1 / S + 0) (at S)"
    by (intro DERIV_add DERIV_const)
  then have "((\<lambda>S. (ln (S / K) + (r + sigma\<^sup>2 / 2) * T) / (sigma * sqrt T))
               has_real_derivative (1 / S + 0) / (sigma * sqrt T)) (at S)"
    by (rule DERIV_cdivide)
  moreover have "(\<lambda>S. spec_d1 S K T r sigma)
                   = (\<lambda>S. (ln (S / K) + (r + sigma\<^sup>2 / 2) * T) / (sigma * sqrt T))"
    by (rule ext) (simp add: spec_d1_def)
  ultimately show ?thesis by simp
qed

lemma pdf_d1_d2:
  assumes "0 < S" "0 < K" "0 < T" "0 < sigma"
  shows "S * norm_pdf (spec_d1 S K T r sigma)
           = K * exp (- (r * T)) * norm_pdf (spec_d2 S K T r sigma)"
proof -
  let ?a = "spec_d1 S K T r sigma"
  let ?b = "spec_d2 S K T r sigma"
  have "exp (?a\<^sup>2 / 2) * exp (- ?a\<^sup>2 / 2) = 1"
    by (simp add: exp_add [symmetric])
  then have "exp (?b\<^sup>2 / 2) * (S / K * exp (r * T)) * exp (- ?a\<^sup>2 / 2) = 1"
    by (simp only: exp_d1_d2 [OF assms])
  then have "exp (- ?b\<^sup>2 / 2) * (exp (?b\<^sup>2 / 2) * (S / K * exp (r * T)) * exp (- ?a\<^sup>2 / 2))
               = exp (- ?b\<^sup>2 / 2)"
    by simp
  moreover have "exp (- ?b\<^sup>2 / 2) * exp (?b\<^sup>2 / 2) = 1"
    by (simp add: exp_add [symmetric])
  ultimately have "S / K * exp (r * T) * exp (- ?a\<^sup>2 / 2) = exp (- ?b\<^sup>2 / 2)"
    by (simp add: mult.assoc [symmetric])
  then have "K * exp (- (r * T)) * exp (- ?b\<^sup>2 / 2)
               = K * exp (- (r * T)) * (S / K * exp (r * T) * exp (- ?a\<^sup>2 / 2))"
    by simp
  also have "\<dots> = S * exp (- ?a\<^sup>2 / 2) * (exp (- (r * T)) * exp (r * T))"
    using assms(2) by simp
  also have "exp (- (r * T)) * exp (r * T) = 1"
    by (simp add: exp_add [symmetric])
  finally show ?thesis
    by (simp add: norm_pdf_def)
qed

lemma spec_price_call_deriv:
  assumes cdf: "std_normal_cdf cdf" and pos: "0 < S" "0 < K" "0 < T" "0 < sigma"
  shows "((\<lambda>S. spec_price cdf S K T r sigma Call) has_real_derivative
           cdf (spec_d1 S K T r sigma)) (at S)"
proof -
  define v where "v = sigma * sqrt T"
  define a where "a = spec_d1 S K T r sigma"
  define b where "b = spec_d2 S K T r sigma"
  define D where "D = 1 / S / v"
  have b: "b = a - v"
    by (simp add: a_def b_def spec_d2_def v_def)
  have dc: "(cdf has_real_derivative norm_pdf x) (at x)" for x
    using cdf by (simp add: std_normal_cdf_def)
  have da: "((\<lambda>S. spec_d1 S K T r sigma) has_real_derivative D) (at S)"
    unfolding D_def v_def by (rule spec_d1_deriv [OF pos(1,2)])
  have db: "((\<lambda>S. spec_d1 S K T r sigma - v) has_real_derivative D - 0) (at S)"
    by (intro DERIV_diff da DERIV_const)
  have ca: "((\<lambda>S. cdf (spec_d1 S K T r sigma)) has_real_derivative norm_pdf a * D) (at S)"
    unfolding a_def by (rule DERIV_chain' [OF da dc])
  have cb: "((\<lambda>S. cdf (spec_d1 S K T r sigma - v)) has_real_derivative
              norm_pdf b * (D - 0)) (at S)"
    unfolding b a_def by (rule DERIV_chain' [OF db dc])
  have m: "((\<lambda>S. S * cdf (spec_d1 S K T r sigma)) has_real_derivative
             1 * cdf a + norm_pdf a * D * S) (at S)"
    unfolding a_def by (rule DERIV_mult [OF DERIV_ident ca [unfolded a_def]])
  have d: "((\<lambda>S. S * cdf (spec_d1 S K T r sigma)
               - K * exp (- (r * T)) * cdf (spec_d1 S K T r sigma - v))
          has_real_derivative
          (1 * cdf a + norm_pdf a * D * S) - K * exp (- (r * T)) * (norm_pdf b * (D - 0))) (at S)"
    by (rule DERIV_diff [OF m DERIV_cmult [OF cb]])
  have x: "(1 * cdf a + norm_pdf a * D * S) - K * exp (- (r * T)) * (norm_pdf b * (D - 0))
                   = cdf a"
  proof -
    have "S * norm_pdf a = K * exp (- (r * T)) * norm_pdf b"
      unfolding a_def b_def by (rule pdf_d1_d2 [OF pos])
    then have e: "K * exp (- (r * T)) * norm_pdf b = S * norm_pdf a"
      by (rule sym)
    have "K * exp (- (r * T)) * (norm_pdf b * (D - 0))
            = (K * exp (- (r * T)) * norm_pdf b) * D"
      by simp
    also have "\<dots> = (S * norm_pdf a) * D"
      by (simp only: e)
    also have "\<dots> = norm_pdf a * D * S"
      by simp
    finally have f: "K * exp (- (r * T)) * (norm_pdf b * (D - 0)) = norm_pdf a * D * S" .
    show ?thesis unfolding f by simp
  qed
  have eq: "(\<lambda>S. spec_price cdf S K T r sigma Call)
                   = (\<lambda>S. S * cdf (spec_d1 S K T r sigma)
                           - K * exp (- (r * T)) * cdf (spec_d1 S K T r sigma - v))"
    by (rule ext) (simp add: spec_d2_def v_def)
  from d have "((\<lambda>S. S * cdf (spec_d1 S K T r sigma)
                     - K * exp (- (r * T)) * cdf (spec_d1 S K T r sigma - v))
                 has_real_derivative cdf a) (at S)"
    by (simp only: x)
  then show ?thesis by (simp only: eq a_def)
qed

lemma spec_price_put_deriv:
  assumes cdf: "std_normal_cdf cdf" and pos: "0 < S" "0 < K" "0 < T" "0 < sigma"
  shows "((\<lambda>S. spec_price cdf S K T r sigma Put) has_real_derivative
           - cdf (- spec_d1 S K T r sigma)) (at S)"
proof -
  define v where "v = sigma * sqrt T"
  define a where "a = spec_d1 S K T r sigma"
  define b where "b = spec_d2 S K T r sigma"
  define D where "D = 1 / S / v"
  have b: "b = a - v"
    by (simp add: a_def b_def spec_d2_def v_def)
  have dc: "(cdf has_real_derivative norm_pdf x) (at x)" for x
    using cdf by (simp add: std_normal_cdf_def)
  have da: "((\<lambda>S. spec_d1 S K T r sigma) has_real_derivative D) (at S)"
    unfolding D_def v_def by (rule spec_d1_deriv [OF pos(1,2)])
  have dna: "((\<lambda>S. - spec_d1 S K T r sigma) has_real_derivative - D) (at S)"
    by (intro DERIV_minus da)
  have dnb: "((\<lambda>S. - (spec_d1 S K T r sigma - v)) has_real_derivative - (D - 0)) (at S)"
    by (intro DERIV_minus DERIV_diff da DERIV_const)
  have ca: "((\<lambda>S. cdf (- spec_d1 S K T r sigma)) has_real_derivative norm_pdf (- a) * - D) (at S)"
    unfolding a_def by (rule DERIV_chain' [OF dna dc])
  have cb: "((\<lambda>S. cdf (- (spec_d1 S K T r sigma - v))) has_real_derivative
              norm_pdf (- b) * - (D - 0)) (at S)"
    unfolding b a_def by (rule DERIV_chain' [OF dnb dc])
  have m: "((\<lambda>S. S * cdf (- spec_d1 S K T r sigma)) has_real_derivative
             1 * cdf (- a) + norm_pdf (- a) * - D * S) (at S)"
    unfolding a_def by (rule DERIV_mult [OF DERIV_ident ca [unfolded a_def]])
  have d: "((\<lambda>S. K * exp (- (r * T)) * cdf (- (spec_d1 S K T r sigma - v))
               - S * cdf (- spec_d1 S K T r sigma))
          has_real_derivative
          K * exp (- (r * T)) * (norm_pdf (- b) * - (D - 0))
            - (1 * cdf (- a) + norm_pdf (- a) * - D * S)) (at S)"
    by (rule DERIV_diff [OF DERIV_cmult [OF cb] m])
  have x: "K * exp (- (r * T)) * (norm_pdf (- b) * - (D - 0))
            - (1 * cdf (- a) + norm_pdf (- a) * - D * S) = - cdf (- a)"
  proof -
    have "S * norm_pdf a = K * exp (- (r * T)) * norm_pdf b"
      unfolding a_def b_def by (rule pdf_d1_d2 [OF pos])
    then have e: "K * exp (- (r * T)) * norm_pdf b = S * norm_pdf a"
      by (rule sym)
    have "K * exp (- (r * T)) * (norm_pdf (- b) * - (D - 0))
            = - ((K * exp (- (r * T)) * norm_pdf b) * D)"
      by (simp add: norm_pdf_even)
    also have "\<dots> = - ((S * norm_pdf a) * D)"
      by (simp only: e)
    also have "\<dots> = norm_pdf (- a) * - D * S"
      by (simp add: norm_pdf_even)
    finally have f: "K * exp (- (r * T)) * (norm_pdf (- b) * - (D - 0))
                       = norm_pdf (- a) * - D * S" .
    show ?thesis unfolding f by simp
  qed
  have eq: "(\<lambda>S. spec_price cdf S K T r sigma Put)
                   = (\<lambda>S. K * exp (- (r * T)) * cdf (- (spec_d1 S K T r sigma - v))
                           - S * cdf (- spec_d1 S K T r sigma))"
    by (rule ext) (simp add: spec_d2_def v_def)
  from d have "((\<lambda>S. K * exp (- (r * T)) * cdf (- (spec_d1 S K T r sigma - v))
                     - S * cdf (- spec_d1 S K T r sigma))
                 has_real_derivative - cdf (- a)) (at S)"
    by (simp only: x)
  then show ?thesis by (simp only: eq a_def)
qed

lemma spec_price_call_mono:
  assumes cdf: "std_normal_cdf cdf"
    and pos: "0 < K" "0 < T" "0 < sigma" "0 < S1" "S1 \<le> S2"
  shows "spec_price cdf S1 K T r sigma Call \<le> spec_price cdf S2 K T r sigma Call"
proof (rule DERIV_nonneg_imp_nondecreasing
    [of S1 S2 "\<lambda>S. spec_price cdf S K T r sigma Call", OF pos(5)])
  fix S :: real assume "S1 \<le> S" "S \<le> S2"
  with pos have S: "0 < S" by simp
  show "\<exists>D. ((\<lambda>S. spec_price cdf S K T r sigma Call) has_real_derivative D) (at S) \<and> 0 \<le> D"
    using spec_price_call_deriv [OF cdf S pos(1,2,3), of r]
      cdf_nonneg [OF cdf, of "spec_d1 S K T r sigma"]
    by blast
qed

lemma spec_price_put_mono:
  assumes cdf: "std_normal_cdf cdf"
    and pos: "0 < K" "0 < T" "0 < sigma" "0 < S1" "S1 \<le> S2"
  shows "spec_price cdf S2 K T r sigma Put \<le> spec_price cdf S1 K T r sigma Put"
proof (rule DERIV_nonpos_imp_nonincreasing
    [of S1 S2 "\<lambda>S. spec_price cdf S K T r sigma Put", OF pos(5)])
  fix S :: real assume "S1 \<le> S" "S \<le> S2"
  with pos have S: "0 < S" by simp
  have "- cdf (- spec_d1 S K T r sigma) \<le> 0"
    using cdf_nonneg [OF cdf, of "- spec_d1 S K T r sigma"] by simp
  then show "\<exists>D. ((\<lambda>S. spec_price cdf S K T r sigma Put) has_real_derivative D) (at S) \<and> D \<le> 0"
    using spec_price_put_deriv [OF cdf S pos(1,2,3), of r] by blast
qed


section \<open>The claims about the pricing function\<close>

text \<open>
  Claim C1. For a positive spot, strike, maturity and volatility the function returns,
  without raising, the Black-Scholes value as the specification writes it: with
  \<open>d1 = (ln (S / K) + (r + sigma\<^sup>2 / 2) * T) / (sigma * sqrt T)\<close> and
  \<open>d2 = d1 - sigma * sqrt T\<close>, the call is
  \<open>S * cdf d1 - K * exp (- r * T) * cdf d2\<close> and the put is
  \<open>K * exp (- r * T) * cdf (- d2) - S * cdf (- d1)\<close>.
\<close>

theorem price_formula:
  assumes "0 < S" "0 < K" "0 < T" "0 < sigma"
  shows "black_scholes cdf S K T r sigma ''call'' =
           Inr (S * cdf (spec_d1 S K T r sigma)
                - K * exp (- (r * T)) * cdf (spec_d2 S K T r sigma))
         \<and> black_scholes cdf S K T r sigma ''put'' =
           Inr (K * exp (- (r * T)) * cdf (- spec_d2 S K T r sigma)
                - S * cdf (- spec_d1 S K T r sigma))
         \<and> spec_d1 S K T r sigma =
             (ln (S / K) + (r + sigma\<^sup>2 / 2) * T) / (sigma * sqrt T)
         \<and> spec_d2 S K T r sigma = spec_d1 S K T r sigma - sigma * sqrt T"
  using assms
  by (simp add: black_scholes_def spec_d1_def spec_d2_def Let_def)

theorem price_formula_witness:
  "(0::real) < 100 \<and> (0::real) < 1 \<and> (0::real) < 2 / 10
   \<and> black_scholes Phi 100 100 1 (5 / 100) (2 / 10) ''call'' =
       Inr (100 * Phi (spec_d1 100 100 1 (5 / 100) (2 / 10))
            - 100 * exp (- (5 / 100 * 1)) * Phi (spec_d2 100 100 1 (5 / 100) (2 / 10)))"
  using price_formula [of 100 100 1 "2 / 10" Phi "5 / 100"] by simp

text \<open>
  Claim C2. Whenever the maturity is at most zero or the volatility is at most zero,
  the price is exactly 0, whatever the spot, the strike, the rate and the kind; in
  particular at maturity 0 and at volatility 0.
\<close>

theorem degenerate_price_zero:
  "(T \<le> 0 \<or> sigma \<le> 0 \<longrightarrow> black_scholes cdf S K T r sigma (kind_name k) = Inr 0)
   \<and> black_scholes cdf S K 0 r sigma (kind_name k) = Inr 0
   \<and> black_scholes cdf S K T r 0 (kind_name k) = Inr 0"
  by (simp add: black_scholes_def)

theorem degenerate_price_zero_witness:
  "((- 1::real) \<le> 0 \<or> (2 / 10::real) \<le> 0)
   \<and> black_scholes Phi 100 100 (- 1) (5 / 100) (2 / 10) ''put'' = Inr 0"
  using degenerate_price_zero [of "- 1" "2 / 10" Phi 100 100 "5 / 100" Put] by simp




text \<open>
  Claim C5. Put-call parity over the reals: when \<open>cdf\<close> is the standard normal
  distribution function, then for a positive spot, strike, maturity and volatility both
  prices are returned and the call minus the put is exactly
  \<open>S - K * exp (- r * T)\<close>. Of \<open>cdf\<close> the proof uses only the symmetry
  \<open>cdf x + cdf (- x) = 1\<close>.
\<close>

theorem put_call_parity:
  assumes cdf: "std_normal_cdf cdf"
    and pos: "0 < S" "0 < K" "0 < T" "0 < sigma"
  shows "\<exists>c p. black_scholes cdf S K T r sigma ''call'' = Inr c
           \<and> black_scholes cdf S K T r sigma ''put'' = Inr p
           \<and> c - p = S - K * exp (- r * T)"
proof -
  have neg: "cdf (- x) = 1 - cdf x" for x
    using std_normal_cdf_symmetric [OF cdf, of x] by simp
  from pos have K: "K \<noteq> 0" by simp
  have c: "black_scholes cdf S K T r sigma ''call'' = Inr (spec_price cdf S K T r sigma Call)"
    using black_scholes_total [OF K, of cdf S T r sigma Call] pos
    by (simp add: price_value_def)
  have p: "black_scholes cdf S K T r sigma ''put'' = Inr (spec_price cdf S K T r sigma Put)"
    using black_scholes_total [OF K, of cdf S T r sigma Put] pos
    by (simp add: price_value_def)
  have "spec_price cdf S K T r sigma Call - spec_price cdf S K T r sigma Put
          = S - K * exp (- r * T)"
    by (simp add: neg algebra_simps)
  with c p show ?thesis by blast
qed

theorem put_call_parity_witness:
  "\<exists>c p. black_scholes Phi 100 100 1 (5 / 100) (2 / 10) ''call'' = Inr c
     \<and> black_scholes Phi 100 100 1 (5 / 100) (2 / 10) ''put'' = Inr p
     \<and> c - p = 100 - 100 * exp (- (5 / 100) * 1)"
  using put_call_parity [OF Phi_std_normal_cdf, of 100 100 1 "2 / 10" "5 / 100"] by simp



text \<open>
  Claim C9. When \<open>cdf\<close> is the standard normal distribution function, then for a
  fixed positive strike and any fixed maturity, rate and volatility, and for two
  positive spots \<open>S1 \<le> S2\<close>, all four prices are returned, the call at \<open>S1\<close>
  is at most the call at \<open>S2\<close>, and the put at \<open>S1\<close> is at least the put at
  \<open>S2\<close>.
\<close>

theorem monotone_in_spot:
  assumes cdf: "std_normal_cdf cdf" and pos: "0 < K" "0 < S1" "S1 \<le> S2"
  shows "\<exists>c1 c2 p1 p2.
           black_scholes cdf S1 K T r sigma ''call'' = Inr c1
           \<and> black_scholes cdf S2 K T r sigma ''call'' = Inr c2
           \<and> black_scholes cdf S1 K T r sigma ''put'' = Inr p1
           \<and> black_scholes cdf S2 K T r sigma ''put'' = Inr p2
           \<and> c1 \<le> c2 \<and> p2 \<le> p1"
proof -
  from pos have K: "K \<noteq> 0" by simp
  have c: "price_value cdf S1 K T r sigma Call \<le> price_value cdf S2 K T r sigma Call"
  proof (cases "T \<le> 0 \<or> sigma \<le> 0")
    case True
    then show ?thesis by (simp add: price_value_def)
  next
    case False
    then have "0 < T" "0 < sigma" by simp_all
    from spec_price_call_mono [OF cdf pos(1) this pos(2,3), of r] False
    show ?thesis by (simp add: price_value_def)
  qed
  have p: "price_value cdf S2 K T r sigma Put \<le> price_value cdf S1 K T r sigma Put"
  proof (cases "T \<le> 0 \<or> sigma \<le> 0")
    case True
    then show ?thesis by (simp add: price_value_def)
  next
    case False
    then have "0 < T" "0 < sigma" by simp_all
    from spec_price_put_mono [OF cdf pos(1) this pos(2,3), of r] False
    show ?thesis by (simp add: price_value_def)
  qed
  have "black_scholes cdf S K T r sigma ''call'' = Inr (price_value cdf S K T r sigma Call)"
    "black_scholes cdf S K T r sigma ''put'' = Inr (price_value cdf S K T r sigma Put)" for S
    using black_scholes_total [OF K, of cdf S T r sigma Call]
      black_scholes_total [OF K, of cdf S T r sigma Put] by simp_all
  with c p show ?thesis by blast
qed

theorem monotone_in_spot_witness:
  "\<exists>c1 c2 p1 p2.
     black_scholes Phi 90 100 1 (5 / 100) (2 / 10) ''call'' = Inr c1
     \<and> black_scholes Phi 110 100 1 (5 / 100) (2 / 10) ''call'' = Inr c2
     \<and> black_scholes Phi 90 100 1 (5 / 100) (2 / 10) ''put'' = Inr p1
     \<and> black_scholes Phi 110 100 1 (5 / 100) (2 / 10) ''put'' = Inr p2
     \<and> c1 \<le> c2 \<and> p2 \<le> p1"
  using monotone_in_spot [OF Phi_std_normal_cdf, of 100 90 110 1 "5 / 100" "2 / 10"] by simp

text \<open>
  Claim C10. The degenerate guard comes before the check of the option type: with a
  maturity or a volatility at most zero the function returns 0 and raises nothing for
  every string \<open>option_type\<close>, valid or not. So the error for an invalid option
  type can only come out when maturity and volatility are both positive.
\<close>

theorem guard_before_option_type_check:
  "(T \<le> 0 \<or> sigma \<le> 0 \<longrightarrow> black_scholes cdf S K T r sigma option_type = Inr 0)
   \<and> (black_scholes cdf S K T r sigma option_type = Inl (ValueError msg)
        \<longrightarrow> 0 < T \<and> 0 < sigma)"
  by (auto simp add: black_scholes_def)

theorem guard_before_option_type_check_witness:
  "((1::real) \<le> 0 \<or> (0::real) \<le> 0)
   \<and> black_scholes Phi 100 100 1 (5 / 100) 0 ''invalid'' = Inr 0
   \<and> black_scholes Phi 100 100 1 (5 / 100) (2 / 10) ''invalid''
        = Inl (ValueError option_type_message)
   \<and> (0::real) < 1 \<and> (0::real) < 2 / 10"
proof -
  have e: "black_scholes Phi 100 100 1 (5 / 100) (2 / 10) ''invalid''
             = Inl (ValueError option_type_message)"
    by (simp add: black_scholes_def)
  show ?thesis
    using guard_before_option_type_check [of 1 0 Phi 100 100 "5 / 100" "''invalid''"]
      guard_before_option_type_check
        [of 1 "2 / 10" Phi 100 100 "5 / 100" "''invalid''" option_type_message] e
    by simp
qed

section \<open>The claims about the page\<close>

text \<open>
  Claim C4. When the inputs pass the validation, the page holds two grids of 10 rows
  and 10 columns. The spot axis has 10 evenly spaced values from \<open>0.8 * S\<close> to
  \<open>1.2 * S\<close>, the volatility axis 10 evenly spaced values from \<open>0.5 * sigma\<close>
  to \<open>1.5 * sigma\<close>, both ends included. The cell in row \<open>i\<close> and column
  \<open>j\<close> of the call grid (of the put grid) is what \<open>black_scholes\<close> returns for
  a call (a put) at the spot \<open>S_range ! j\<close> and the volatility
  \<open>sigma_range ! i\<close>, with the strike, the maturity and the rate of the inputs.
\<close>

theorem grid_cells:
  assumes "0 < S" "0 < K" "0 \<le> T" "0 < sigma"
  shows "\<exists>p. main cdf S K T r sigma = Inr (Rendered p)
           \<and> evenly_spaced (S_range p) (0.8 * S) (1.2 * S) 10
           \<and> evenly_spaced (sigma_range p) (0.5 * sigma) (1.5 * sigma) 10
           \<and> length (call_prices p) = 10 \<and> length (put_prices p) = 10
           \<and> (\<forall>i<10. length (call_prices p ! i) = 10 \<and> length (put_prices p ! i) = 10)
           \<and> (\<forall>i<10. \<forall>j<10.
                 black_scholes cdf (S_range p ! j) K T r (sigma_range p ! i) ''call''
                   = Inr (call_prices p ! i ! j)
                 \<and> black_scholes cdf (S_range p ! j) K T r (sigma_range p ! i) ''put''
                   = Inr (put_prices p ! i ! j))"
proof -
  let ?Sr = "linspace (S * 0.8) (S * 1.2) 10"
  let ?sr = "linspace (sigma * 0.5) (sigma * 1.5) 10"
  from main_accepted [OF assms, of cdf r]
  obtain cp pp where
    m: "main cdf S K T r sigma =
          Inr (Rendered \<lparr>call_price = price_value cdf S K T r sigma Call,
                         put_price = price_value cdf S K T r sigma Put,
                         S_range = ?Sr, sigma_range = ?sr,
                         call_prices = cp, put_prices = pp\<rparr>)"
    and len: "length cp = 10" "length pp = 10"
    and rows: "\<forall>i<10. length (cp ! i) = 10 \<and> length (pp ! i) = 10"
    and cells: "\<forall>i<10. \<forall>j<10.
                  cp ! i ! j = price_value cdf (?Sr ! j) K T r (?sr ! i) Call \<and>
                  pp ! i ! j = price_value cdf (?Sr ! j) K T r (?sr ! i) Put"
    by blast
  from assms(2) have K: "K \<noteq> 0" by simp
  have eS: "evenly_spaced ?Sr (0.8 * S) (1.2 * S) 10"
    using evenly_spaced_linspace [of 10 "S * 0.8" "S * 1.2"] by (simp add: mult.commute)
  have es: "evenly_spaced ?sr (0.5 * sigma) (1.5 * sigma) 10"
    using evenly_spaced_linspace [of 10 "sigma * 0.5" "sigma * 1.5"]
    by (simp add: mult.commute)
  have bs: "black_scholes cdf (?Sr ! j) K T r (?sr ! i) ''call'' = Inr (cp ! i ! j)
            \<and> black_scholes cdf (?Sr ! j) K T r (?sr ! i) ''put'' = Inr (pp ! i ! j)"
    if "i < 10" "j < 10" for i j
    using black_scholes_total [OF K, of cdf "?Sr ! j" T r "?sr ! i" Call]
      black_scholes_total [OF K, of cdf "?Sr ! j" T r "?sr ! i" Put]
      cells [rule_format, OF that]
    by simp
  show ?thesis
    using m eS es len rows bs by simp
qed

theorem grid_cells_witness:
  "\<exists>p. main Phi 100 100 1 (5 / 100) (2 / 10) = Inr (Rendered p)
     \<and> length (call_prices p) = 10 \<and> length (S_range p) = 10
     \<and> S_range p ! 0 = 80 \<and> S_range p ! 9 = 120
     \<and> black_scholes Phi (S_range p ! 3) 100 1 (5 / 100) (sigma_range p ! 7) ''call''
         = Inr (call_prices p ! 7 ! 3)"
  using grid_cells [of 100 100 1 "2 / 10" Phi "5 / 100"]
  by (auto simp add: evenly_spaced_def)

text \<open>
  Claim C7. If the spot is at most 0, or the strike is at most 0, or the maturity is
  below 0, or the volatility is at most 0, the page is the error message alone: no
  price and no grid. In every other state the page is rendered, and its two prices are
  what \<open>black_scholes\<close> returns for the inputs.
\<close>

theorem validation_boundary:
  "(S \<le> 0 \<or> K \<le> 0 \<or> T < 0 \<or> sigma \<le> 0
      \<longrightarrow> main cdf S K T r sigma = Inr (Rejected validation_message))
   \<and> (\<not> (S \<le> 0 \<or> K \<le> 0 \<or> T < 0 \<or> sigma \<le> 0)
      \<longrightarrow> (\<exists>p. main cdf S K T r sigma = Inr (Rendered p)
             \<and> black_scholes cdf S K T r sigma ''call'' = Inr (call_price p)
             \<and> black_scholes cdf S K T r sigma ''put'' = Inr (put_price p)))"
proof (intro conjI impI)
  assume "S \<le> 0 \<or> K \<le> 0 \<or> T < 0 \<or> sigma \<le> 0"
  then show "main cdf S K T r sigma = Inr (Rejected validation_message)"
    by (simp add: main_def)
next
  assume "\<not> (S \<le> 0 \<or> K \<le> 0 \<or> T < 0 \<or> sigma \<le> 0)"
  then have ok: "0 < S" "0 < K" "0 \<le> T" "0 < sigma" by simp_all
  then have K: "K \<noteq> 0" by simp
  from main_accepted [OF ok, of cdf r] black_scholes_total [OF K, of cdf S T r sigma Call]
    black_scholes_total [OF K, of cdf S T r sigma Put]
  show "\<exists>p. main cdf S K T r sigma = Inr (Rendered p)
          \<and> black_scholes cdf S K T r sigma ''call'' = Inr (call_price p)
          \<and> black_scholes cdf S K T r sigma ''put'' = Inr (put_price p)"
    by auto
qed

theorem validation_boundary_witness:
  "((100::real) \<le> 0 \<or> (100::real) \<le> 0 \<or> (- 1::real) < 0 \<or> (2 / 10::real) \<le> 0)
   \<and> main Phi 100 100 (- 1) (5 / 100) (2 / 10) = Inr (Rejected validation_message)
   \<and> \<not> ((100::real) \<le> 0 \<or> (100::real) \<le> 0 \<or> (1::real) < 0 \<or> (2 / 10::real) \<le> 0)
   \<and> (\<exists>p. main Phi 100 100 1 (5 / 100) (2 / 10) = Inr (Rendered p)
         \<and> black_scholes Phi 100 100 1 (5 / 100) (2 / 10) ''call'' = Inr (call_price p))"
  using validation_boundary [of 100 100 "- 1" "2 / 10" Phi "5 / 100"]
    validation_boundary [of 100 100 1 "2 / 10" Phi "5 / 100"]
  by auto

text \<open>
  Claim C6, as the code has it. A maturity of exactly 0 (with a positive spot, strike
  and volatility) passes the validation and reaches \<open>black_scholes\<close>, whose guard
  returns 0 without raising: both prices and all cells of both grids are 0. A volatility
  of exactly 0 does not pass: the validation rejects it with the error message.
\<close>

theorem zero_maturity_reaches_guard:
  "(0 < S \<and> 0 < K \<and> 0 < sigma
      \<longrightarrow> (\<exists>p. main cdf S K 0 r sigma = Inr (Rendered p)
             \<and> black_scholes cdf S K 0 r sigma ''call'' = Inr 0
             \<and> black_scholes cdf S K 0 r sigma ''put'' = Inr 0
             \<and> call_price p = 0 \<and> put_price p = 0
             \<and> (\<forall>i<10. \<forall>j<10. call_prices p ! i ! j = 0 \<and> put_prices p ! i ! j = 0)))
   \<and> main cdf S K T r 0 = Inr (Rejected validation_message)"
proof (intro conjI impI)
  assume "0 < S \<and> 0 < K \<and> 0 < sigma"
  then have ok: "0 < S" "0 < K" "(0::real) \<le> 0" "0 < sigma" by simp_all
  from main_accepted [OF ok, of cdf r]
  show "\<exists>p. main cdf S K 0 r sigma = Inr (Rendered p)
          \<and> black_scholes cdf S K 0 r sigma ''call'' = Inr 0
          \<and> black_scholes cdf S K 0 r sigma ''put'' = Inr 0
          \<and> call_price p = 0 \<and> put_price p = 0
          \<and> (\<forall>i<10. \<forall>j<10. call_prices p ! i ! j = 0 \<and> put_prices p ! i ! j = 0)"
    by (auto simp add: price_value_def black_scholes_def)
next
  show "main cdf S K T r 0 = Inr (Rejected validation_message)"
    by (simp add: main_def)
qed

theorem zero_maturity_reaches_guard_witness:
  "(0::real) < 100 \<and> (0::real) < 2 / 10
   \<and> (\<exists>p. main Phi 100 100 0 (5 / 100) (2 / 10) = Inr (Rendered p)
         \<and> call_price p = 0 \<and> put_price p = 0 \<and> call_prices p ! 4 ! 5 = 0)"
proof -
  from zero_maturity_reaches_guard [of 100 100 "2 / 10" Phi "5 / 100" 1]
  obtain p where p: "main Phi 100 100 0 (5 / 100) (2 / 10) = Inr (Rendered p)"
    "call_price p = 0" "put_price p = 0"
    and cells: "\<forall>i<10. \<forall>j<10. call_prices p ! i ! j = 0 \<and> put_prices p ! i ! j = 0"
    by auto
  from cells have "call_prices p ! 4 ! 5 = 0" by simp
  with p show ?thesis by auto
qed

text \<open>
  The claim C6 as the specification states it fails for the volatility: with a
  volatility of exactly 0 the page is the error message, so the input does not reach
  \<open>black_scholes\<close>.
\<close>

theorem zero_volatility_counterexample:
  "main Phi 100 100 1 (5 / 100) 0 = Inr (Rejected validation_message)"
  by (simp add: main_def)

end
